theory Spec2Isabelle
  imports Complex_Main "HOL-Library.Sublist"
begin

section \<open>Strings as Python sees them\<close>

text \<open>
  The script \<^verbatim>\<open>apply_filtered_suggestions.py\<close> works on Python \<^verbatim>\<open>str\<close> values. They are
  modelled as \<^typ>\<open>string\<close>, one \<^typ>\<open>char\<close> per code point, so the model covers texts
  whose code points lie in 0..255. The library functions the script calls
  (\<^verbatim>\<open>str.lower\<close>, \<^verbatim>\<open>str.strip\<close>, \<^verbatim>\<open>str.splitlines\<close>, the regular-expression class
  \<^verbatim>\<open>\s\<close>) are written out for that range.
\<close>

definition is_space :: "char \<Rightarrow> bool" where
  \<comment> \<open>\<^verbatim>\<open>str.isspace\<close> and the class \<^verbatim>\<open>\s\<close> of a \<^verbatim>\<open>str\<close> pattern: TAB, LF, VT, FF, CR,
      FS, GS, RS, US, SPACE, NEL, NBSP.\<close>
  "is_space c =
     (let n = (of_char c :: nat)
      in (9 \<le> n \<and> n \<le> 13) \<or> (28 \<le> n \<and> n \<le> 32) \<or> n = 133 \<or> n = 160)"

definition lower_char :: "char \<Rightarrow> char" where
  \<comment> \<open>\<^verbatim>\<open>str.lower\<close> on one code point below 256: A..Z and the Latin-1 capitals
      (all of U+00C0..U+00DE but the multiplication sign) move up by 32.\<close>
  "lower_char c =
     (let n = (of_char c :: nat)
      in if (65 \<le> n \<and> n \<le> 90) \<or> (192 \<le> n \<and> n \<le> 222 \<and> n \<noteq> 215)
         then char_of (n + 32) else c)"

definition lower :: "string \<Rightarrow> string" where
  "lower s = map lower_char s"

definition is_az09sp :: "char \<Rightarrow> bool" where
  \<comment> \<open>the character class \<^verbatim>\<open>[a-z0-9 ]\<close>\<close>
  "is_az09sp c =
     (let n = (of_char c :: nat)
      in (97 \<le> n \<and> n \<le> 122) \<or> (48 \<le> n \<and> n \<le> 57) \<or> n = 32)"

definition sub_non_az09sp :: "string \<Rightarrow> string" where
  \<comment> \<open>\<^verbatim>\<open>re.sub(r'[^a-z0-9 ]', ' ', s)\<close>\<close>
  "sub_non_az09sp s = map (\<lambda>c. if is_az09sp c then c else CHR '' '') s"

function sub_ws_runs :: "string \<Rightarrow> string" where
  \<comment> \<open>\<^verbatim>\<open>re.sub(r'\s+', ' ', s)\<close>: every maximal run of whitespace becomes one space\<close>
  "sub_ws_runs [] = []"
| "sub_ws_runs (c # cs) =
     (if is_space c then CHR '' '' # sub_ws_runs (dropWhile is_space cs)
      else c # sub_ws_runs cs)"
  by pat_completeness auto
termination
  by (relation "measure length") (auto simp: le_imp_less_Suc length_dropWhile_le)

definition strip :: "string \<Rightarrow> string" where
  \<comment> \<open>\<^verbatim>\<open>str.strip()\<close>: whitespace is dropped at the front, then at the back\<close>
  "strip s = rev (dropWhile is_space (rev (dropWhile is_space s)))"

definition startswith :: "string \<Rightarrow> string \<Rightarrow> bool" where
  \<comment> \<open>\<^verbatim>\<open>s.startswith(p)\<close>\<close>
  "startswith s p = prefix p s"

definition endswith :: "string \<Rightarrow> string \<Rightarrow> bool" where
  \<comment> \<open>\<^verbatim>\<open>s.endswith(p)\<close>\<close>
  "endswith s p = suffix p s"

fun contains :: "string \<Rightarrow> string \<Rightarrow> bool" where
  \<comment> \<open>\<^verbatim>\<open>needle in hay\<close> for strings: \<open>contains hay needle\<close>\<close>
  "contains [] needle = (needle = [])"
| "contains (h # hs) needle = (prefix needle (h # hs) \<or> contains hs needle)"

fun join_nl :: "string list \<Rightarrow> string" where
  \<comment> \<open>\<^verbatim>\<open>'\n'.join(xs)\<close>\<close>
  "join_nl [] = []"
| "join_nl [x] = x"
| "join_nl (x # y # ys) = x @ CHR 0x0A # join_nl (y # ys)"

definition is_linebreak :: "char \<Rightarrow> bool" where
  \<comment> \<open>the line boundaries of \<^verbatim>\<open>str.splitlines\<close> below 256: LF, VT, FF, CR, FS, GS, RS, NEL\<close>
  "is_linebreak c =
     (let n = (of_char c :: nat)
      in (10 \<le> n \<and> n \<le> 13) \<or> (28 \<le> n \<and> n \<le> 30) \<or> n = 133)"

fun splitlines_from :: "string \<Rightarrow> string \<Rightarrow> string list" where
  \<comment> \<open>the scan of \<^verbatim>\<open>str.splitlines()\<close>; \<open>cur\<close> is the line read so far. CR LF is one
      boundary, and no empty line is produced after the last boundary.\<close>
  "splitlines_from cur [] = (if cur = [] then [] else [cur])"
| "splitlines_from cur (c # cs) =
     (if is_linebreak c
      then cur # splitlines_from []
             (if c = CHR 0x0D \<and> cs \<noteq> [] \<and> hd cs = CHR 0x0A then tl cs else cs)
      else splitlines_from (cur @ [c]) cs)"

definition splitlines :: "string \<Rightarrow> string list" where
  "splitlines s = splitlines_from [] s"

definition insert_at :: "nat \<Rightarrow> 'a \<Rightarrow> 'a list \<Rightarrow> 'a list" where
  \<comment> \<open>\<^verbatim>\<open>xs.insert(i, x)\<close> for \<open>i \<ge> 0\<close>: an index past the end appends\<close>
  "insert_at i x xs = take i xs @ x # drop i xs"

definition slice :: "int \<Rightarrow> int \<Rightarrow> 'a list \<Rightarrow> 'a list" where
  \<comment> \<open>\<^verbatim>\<open>xs[lo:hi]\<close> for bounds with \<open>0 \<le> lo\<close> and \<open>0 \<le> hi \<le> len(xs)\<close>\<close>
  "slice lo hi xs = take (nat (hi - lo)) (drop (nat lo) xs)"

section \<open>The text normalizer and the actionability classifier\<close>

definition THRESHOLD :: rat where
  "THRESHOLD = 85 / 100"

definition ACTION_VERBS :: "string list" where
  "ACTION_VERBS = [''create'', ''implement'', ''open'', ''contact'', ''draft'', ''request'',
     ''schedule'', ''setup'', ''configure'', ''test'', ''verify'', ''follow'']"

definition normalize :: "string option \<Rightarrow> string" where
  \<comment> \<open>\<^verbatim>\<open>re.sub(r'\s+',' ', re.sub(r'[^a-z0-9 ]',' ', (s or '').lower())).strip()\<close>;
      \<open>None\<close> is Python's \<^verbatim>\<open>None\<close>\<close>
  "normalize s =
     strip (sub_ws_runs (sub_non_az09sp (lower (case s of None \<Rightarrow> [] | Some x \<Rightarrow> x))))"

fun any_verb :: "string \<Rightarrow> string list \<Rightarrow> bool" where
  \<comment> \<open>the loop \<^verbatim>\<open>for v in ACTION_VERBS\<close> of \<^verbatim>\<open>is_actionable\<close>, on the normalized title\<close>
  "any_verb t [] = False"
| "any_verb t (v # vs) =
     (if startswith t (v @ '' '') \<or> contains ('' '' @ t @ '' '') ('' '' @ v @ '' '')
      then True else any_verb t vs)"

definition is_actionable :: "string \<Rightarrow> bool" where
  "is_actionable title = any_verb (normalize (Some title)) ACTION_VERBS"

section \<open>Data model\<close>

record suggestion =
  original :: "string option"   \<comment> \<open>\<^verbatim>\<open>it.get('original')\<close>, \<open>None\<close> when absent\<close>
  suggested_text :: string      \<comment> \<open>\<^verbatim>\<open>it.get('suggested_text','')\<close>\<close>

datatype decision = Insert | SkipSimilar | SkipNotActionable

record decision_record =
  rec_original :: "string option"
  rec_title :: string
  rec_similarity :: rat
  rec_actionable :: bool
  rec_decision :: decision

text \<open>
  What the script reads from outside while it runs. \<open>ratio a b\<close> stands for
  \<^verbatim>\<open>SequenceMatcher(None, a, b).ratio()\<close> of Python's \<^verbatim>\<open>difflib\<close>: the quotient
  \<open>2 * M / T\<close> of matched characters over total length, taken here as the exact
  rational, and the literals \<^verbatim>\<open>0.85\<close> and \<^verbatim>\<open>0.2\<close> as the decimals they abbreviate
  (a quotient with \<open>T < 2^48\<close> never falls between such a decimal and its nearest double,
  so the comparisons of the script come out the same). Every theorem below holds for any
  scorer. \<open>uuid4_hex k\<close> and \<open>utcnow_iso k\<close> are the values of \<^verbatim>\<open>uuid.uuid4().hex\<close> and
  \<^verbatim>\<open>datetime.datetime.utcnow().isoformat()\<close> while item number \<open>k\<close> is processed;
  \<open>utcnow_iso\<close> at the number of items is the clock read for the header line.
\<close>

record environment =
  ratio :: "string \<Rightarrow> string \<Rightarrow> rat"
  uuid4_hex :: "nat \<Rightarrow> string"
  utcnow_iso :: "nat \<Rightarrow> string"

record suggestions_json =
  schema :: "string option"            \<comment> \<open>\<^verbatim>\<open>sugg.get('schema')\<close>\<close>
  generatedAtUtc :: "string option"    \<comment> \<open>\<^verbatim>\<open>sugg.get('generatedAtUtc')\<close>\<close>
  items :: "suggestion list"           \<comment> \<open>\<^verbatim>\<open>sugg['fileSuggestions'][0]['suggestions']\<close>\<close>

record loop_state =
  new_lines :: "string list"
  offset :: nat
  inserted :: nat
  records :: "decision_record list"

record outcome =
  out_lines :: "string list"           \<comment> \<open>\<^verbatim>\<open>new_lines\<close> after the header update\<close>
  out_content :: string                \<comment> \<open>\<^verbatim>\<open>new_content\<close>\<close>
  out_records :: "decision_record list"
  out_inserted :: nat

section \<open>Markers\<close>

definition hex_digit :: "nat \<Rightarrow> char" where
  "hex_digit n = (if n < 10 then char_of (48 + n) else char_of (87 + n))"

definition json_escape_char :: "char \<Rightarrow> string" where
  \<comment> \<open>the escapes of \<^verbatim>\<open>json.dumps(..., ensure_ascii=False)\<close> inside a string\<close>
  "json_escape_char c =
     (let n = (of_char c :: nat)
      in if n = 34 then [CHR 0x5C, CHR 0x22]
         else if n = 92 then [CHR 0x5C, CHR 0x5C]
         else if n = 10 then [CHR 0x5C, CHR ''n'']
         else if n = 13 then [CHR 0x5C, CHR ''r'']
         else if n = 9 then [CHR 0x5C, CHR ''t'']
         else if n = 8 then [CHR 0x5C, CHR ''b'']
         else if n = 12 then [CHR 0x5C, CHR ''f'']
         else if n < 32
           then [CHR 0x5C, CHR ''u'', CHR ''0'', CHR ''0'', hex_digit (n div 16), hex_digit (n mod 16)]
         else [c])"

definition json_string :: "string \<Rightarrow> string" where
  "json_string s = CHR 0x22 # concat (map json_escape_char s) @ [CHR 0x22]"

definition json_string_or_null :: "string option \<Rightarrow> string" where
  "json_string_or_null s = (case s of None \<Rightarrow> ''null'' | Some x \<Rightarrow> json_string x)"

definition human_note_of :: "string \<Rightarrow> string" where
  \<comment> \<open>\<^verbatim>\<open>f"  > <!-- bot: note --> {title}"\<close>\<close>
  "human_note_of title = ''  > <!-- bot: note --> '' @ title"

definition machine_comment_of ::
  "environment \<Rightarrow> suggestions_json \<Rightarrow> nat \<Rightarrow> string option \<Rightarrow> string \<Rightarrow> string" where
  \<comment> \<open>\<^verbatim>\<open>'<!-- bot: subtask '+json.dumps(marker_obj,ensure_ascii=False)+' -->'\<close>\<close>
  "machine_comment_of env sugg k orig title =
     (let sub_id = ''sub:'' @ take 8 (uuid4_hex env k);
          source_model = (case schema sugg of None \<Rightarrow> ''gpt-5-mini'' | Some m \<Rightarrow> m)
      in ''<!-- bot: subtask {''
         @ json_string ''id'' @ '': '' @ json_string sub_id @ '', ''
         @ json_string ''original_line'' @ '': '' @ json_string_or_null orig @ '', ''
         @ json_string ''title'' @ '': '' @ json_string title @ '', ''
         @ json_string ''estimate_hours'' @ '': null, ''
         @ json_string ''assignee'' @ '': null, ''
         @ json_string ''createdAtUtc'' @ '': '' @ json_string (utcnow_iso env k @ ''Z'') @ '', ''
         @ json_string ''source_model'' @ '': '' @ json_string source_model @ '', ''
         @ json_string ''status'' @ '': '' @ json_string ''suggested''
         @ ''} -->'')"

definition last_line_of :: "environment \<Rightarrow> suggestions_json \<Rightarrow> string" where
  \<comment> \<open>the header line, built after the loop\<close>
  "last_line_of env sugg =
     ''<!-- bot: last_review --> '' @ utcnow_iso env (length (items sugg))
       @ ''Z model=gpt-5-mini hash=''
       @ (case generatedAtUtc sugg of None \<Rightarrow> [] | Some h \<Rightarrow> h)"

section \<open>The suggestion filter\<close>

definition extract_title :: "string \<Rightarrow> string" where
  \<comment> \<open>\<^verbatim>\<open>re.sub(r'^\- \[ \]\s*','', suggested).split('\n')[0]\<close>\<close>
  "extract_title suggested =
     takeWhile (\<lambda>c. c \<noteq> CHR 0x0A)
       (if startswith suggested ''- [ ]'' then dropWhile is_space (drop 5 suggested)
        else suggested)"

definition filter_decision :: "environment \<Rightarrow> rat \<Rightarrow> suggestion \<Rightarrow> decision_record" where
  "filter_decision env threshold it =
     (let orig = original it;
          title = extract_title (suggested_text it);
          sim = ratio env (normalize orig) (normalize (Some title));
          actionable = is_actionable title;
          decision = (if sim \<ge> threshold then SkipSimilar
                      else if \<not> actionable then SkipNotActionable
                      else Insert)
      in \<lparr>rec_original = orig, rec_title = title, rec_similarity = sim,
          rec_actionable = actionable, rec_decision = decision\<rparr>)"

section \<open>The line matcher and inserter\<close>

fun best_match_loop ::
  "(string \<Rightarrow> rat) \<Rightarrow> (nat \<times> string) list \<Rightarrow> nat option \<times> rat \<Rightarrow> nat option \<times> rat" where
  \<comment> \<open>\<^verbatim>\<open>for idx,ln in enumerate(lines)\<close> (\<open>line\<close> is \<^verbatim>\<open>ln\<close>), carrying \<^verbatim>\<open>(best_idx, best_score)\<close>\<close>
  "best_match_loop score [] best = best"
| "best_match_loop score ((idx, line) # rest) (best_idx, best_score) =
     (if score line > best_score then best_match_loop score rest (Some idx, score line)
      else best_match_loop score rest (best_idx, best_score))"

definition line_score :: "environment \<Rightarrow> string option \<Rightarrow> string \<Rightarrow> rat" where
  "line_score env orig line = ratio env (normalize orig) (normalize (Some line))"

definition best_match :: "environment \<Rightarrow> string option \<Rightarrow> string list \<Rightarrow> nat option \<times> rat" where
  "best_match env orig lines =
     best_match_loop (line_score env orig) (enumerate 0 lines) (None, 0)"

definition window_of :: "string list \<Rightarrow> nat \<Rightarrow> string list" where
  \<comment> \<open>\<^verbatim>\<open>new_lines[max(0,idx-2):min(len(new_lines),idx+3)]\<close>\<close>
  "window_of nl idx = slice (max 0 (int idx - 2)) (min (int (length nl)) (int idx + 3)) nl"

definition already_present :: "string list \<Rightarrow> string \<Rightarrow> string \<Rightarrow> bool" where
  \<comment> \<open>\<^verbatim>\<open>human_note.strip() in '\n'.join(window) or machine_comment in '\n'.join(window)\<close>\<close>
  "already_present window human_note machine_comment =
     (contains (join_nl window) (strip human_note) \<or> contains (join_nl window) machine_comment)"

definition process_item ::
  "environment \<Rightarrow> suggestions_json \<Rightarrow> rat \<Rightarrow> string list \<Rightarrow> nat \<Rightarrow> loop_state \<Rightarrow> suggestion
     \<Rightarrow> loop_state" where
  \<comment> \<open>one pass through the body of \<^verbatim>\<open>for it in items\<close>; \<open>k\<close> is the number of the item\<close>
  "process_item env sugg threshold lines k st it =
     (let r = filter_decision env threshold it;
          st1 = st\<lparr>records := records st @ [r]\<rparr>
      in if rec_decision r \<noteq> Insert then st1
         else
           (case best_match env (original it) lines of
              (None, best_score) \<Rightarrow> st1
            | (Some best_idx, best_score) \<Rightarrow>
                if best_score < 2 / 10 then st1
                else
                  (let human_note = human_note_of (rec_title r);
                       machine_comment =
                         machine_comment_of env sugg k (original it) (rec_title r);
                       idx = best_idx + 1 + offset st
                   in if already_present (window_of (new_lines st) idx) human_note machine_comment
                      then st1
                      else st1\<lparr>new_lines :=
                                 insert_at (idx + 1) machine_comment
                                   (insert_at idx human_note (new_lines st)),
                               offset := offset st + 2,
                               inserted := inserted st + 1\<rparr>)))"

fun process_items ::
  "environment \<Rightarrow> suggestions_json \<Rightarrow> rat \<Rightarrow> string list \<Rightarrow> nat \<Rightarrow> loop_state
     \<Rightarrow> suggestion list \<Rightarrow> loop_state" where
  "process_items env sugg threshold lines k st [] = st"
| "process_items env sugg threshold lines k st (it # its) =
     process_items env sugg threshold lines (Suc k)
       (process_item env sugg threshold lines k st it) its"

section \<open>The header update and the whole run\<close>

definition update_last_review :: "string list \<Rightarrow> string \<Rightarrow> string list" where
  "update_last_review nl last_line =
     (if nl \<noteq> [] \<and> startswith (hd nl) ''<!-- bot: last_review'' then nl[0 := last_line]
      else insert_at 0 last_line nl)"

definition initial_state :: "string list \<Rightarrow> loop_state" where
  "initial_state lines = \<lparr>new_lines = lines, offset = 0, inserted = 0, records = []\<rparr>"

definition threshold_arg :: "rat option \<Rightarrow> rat" where
  \<comment> \<open>\<^verbatim>\<open>p.add_argument('--threshold',type=float,default=THRESHOLD)\<close>\<close>
  "threshold_arg t = (case t of None \<Rightarrow> THRESHOLD | Some x \<Rightarrow> x)"

definition after_loop ::
  "environment \<Rightarrow> suggestions_json \<Rightarrow> rat option \<Rightarrow> string \<Rightarrow> loop_state" where
  "after_loop env sugg t content =
     (let lines = splitlines content
      in process_items env sugg (threshold_arg t) lines 0 (initial_state lines) (items sugg))"

definition main_core ::
  "environment \<Rightarrow> suggestions_json \<Rightarrow> rat option \<Rightarrow> string \<Rightarrow> outcome" where
  \<comment> \<open>\<^verbatim>\<open>main\<close> from \<^verbatim>\<open>lines=content.splitlines()\<close> to \<^verbatim>\<open>new_content\<close> and \<^verbatim>\<open>records\<close>;
      the download, the backup, the upload and the file of records are outside\<close>
  "main_core env sugg t content =
     (let st = after_loop env sugg t content;
          nl = update_last_review (new_lines st) (last_line_of env sugg);
          new_content = join_nl nl @ (if endswith content [CHR 0x0A] then [CHR 0x0A] else [])
      in \<lparr>out_lines = nl, out_content = new_content, out_records = records st,
          out_inserted = inserted st\<rparr>)"

text \<open>
  A scorer for worked examples: 1 on equal strings, 0 otherwise. \<^verbatim>\<open>ratio()\<close> returns
  1.0 exactly on equal strings and 0.0 on strings with no character in common, so on
  such pairs this scorer is \<^verbatim>\<open>ratio()\<close>.
\<close>

definition exact_ratio :: "string \<Rightarrow> string \<Rightarrow> rat" where
  "exact_ratio a b = (if a = b then 1 else 0)"

definition example_env :: environment where
  "example_env = \<lparr>ratio = exact_ratio,
     uuid4_hex = (\<lambda>k. if k = 0 then ''0f1e2d3c4b5a69788796a5b4c3d2e1f0''
                      else ''a1b2c3d4e5f60718293a4b5c6d7e8f90''),
     utcnow_iso = (\<lambda>k. ''2026-01-0'' @ [hex_digit (Suc k)] @ ''T10:00:00.000001'')\<rparr>"


definition example_lines :: "string list" where
  "example_lines = [''t'', ''a'', ''11'', ''b'', ''c'', ''33'', ''z'']"

definition example_content :: string where
  "example_content = concat (map (\<lambda>l. l @ [CHR 0x0A]) example_lines)"

definition example_items :: "suggestion list" where
  "example_items =
     [\<lparr>original = Some ''11'', suggested_text = ''- [ ] Create plan''\<rparr>,
      \<lparr>original = Some ''33'', suggested_text = ''- [ ] Verify it''\<rparr>]"

definition example_sugg :: suggestions_json where
  "example_sugg = \<lparr>schema = None, generatedAtUtc = None, items = example_items\<rparr>"

definition tie_lines :: "string list" where
  "tie_lines = [''t'', ''11'', ''b'', ''11'']"

definition stray_item :: suggestion where
  "stray_item = \<lparr>original = Some ''99'', suggested_text = ''- [ ] Create plan''\<rparr>"

definition first_content :: string where
  "first_content = concat (map (\<lambda>l. l @ [CHR 0x0A]) [''t'', ''11'', ''z''])"

definition first_sugg :: suggestions_json where
  "first_sugg = \<lparr>schema = None, generatedAtUtc = None, items = [example_items ! 0]\<rparr>"

definition rerun_env :: environment where
  "rerun_env = \<lparr>ratio = exact_ratio,
     uuid4_hex = (\<lambda>k. ''ffeeddccbbaa99887766554433221100''),
     utcnow_iso = (\<lambda>k. ''2026-02-0'' @ [hex_digit (Suc k)] @ ''T09:30:00.000002'')\<rparr>"

definition rerun_lines :: "string list" where
  \<comment> \<open>the lines of the document that a first run on \<open>first_content\<close> leaves behind\<close>
  "rerun_lines = [last_line_of example_env first_sugg, ''t'', ''11'', human_note_of ''Create plan'',
     machine_comment_of example_env first_sugg 0 (Some ''11'') ''Create plan'', ''z'']"

definition empty_sugg :: suggestions_json where
  "empty_sugg = \<lparr>schema = None, generatedAtUtc = None, items = []\<rparr>"

definition cr_content :: string where
  \<comment> \<open>\<^verbatim>\<open>"a\r\r"\<close>\<close>
  "cr_content = [CHR ''a'', CHR 0x0D, CHR 0x0D]"

definition reviewed_content :: string where
  "reviewed_content = ''<!-- bot: last_review --> old'' @ [CHR 0x0A] @ ''x'' @ [CHR 0x0A]"

definition mixed_sugg :: suggestions_json where
  "mixed_sugg = \<lparr>schema = None, generatedAtUtc = None,
     items = [example_items ! 0,
              \<lparr>original = Some ''Buy milk'', suggested_text = ''- [ ] Buy milk''\<rparr>,
              \<lparr>original = Some ''11'', suggested_text = ''- [ ] Vague thought''\<rparr>]\<rparr>"

section \<open>Notions used in the statements\<close>

fun squeezed :: "string \<Rightarrow> bool" where
  \<comment> \<open>no two whitespace characters next to each other\<close>
  "squeezed [] = True"
| "squeezed [c] = True"
| "squeezed (c # d # cs) = (\<not> (is_space c \<and> is_space d) \<and> squeezed (d # cs))"

fun split_sp :: "string \<Rightarrow> string list" where
  \<comment> \<open>\<^verbatim>\<open>t.split(' ')\<close>: the pieces between single spaces\<close>
  "split_sp [] = [[]]"
| "split_sp (c # cs) =
     (if c = CHR '' '' then [] # split_sp cs
      else (c # hd (split_sp cs)) # tl (split_sp cs))"

definition is_actionable_spec :: "string \<Rightarrow> bool" where
  \<comment> \<open>the classifier as the specification words it: the normalized title starts with a
      verb of the list, or contains it as a separate word\<close>
  "is_actionable_spec title =
     (let t = normalize (Some title)
      in list_ex (\<lambda>v. startswith t v \<or> v \<in> set (split_sp t)) ACTION_VERBS)"

definition is_review :: "string \<Rightarrow> bool" where
  "is_review l = startswith l ''<!-- bot: last_review''"

definition loop_inv :: "string list \<Rightarrow> loop_state \<Rightarrow> bool" where
  "loop_inv lines st \<longleftrightarrow>
     length (new_lines st) = length lines + offset st \<and> offset st = 2 * inserted st"

definition frame_inv :: "string list \<Rightarrow> string list \<Rightarrow> bool" where
  "frame_inv lines nl \<longleftrightarrow>
     (lines = [] \<longrightarrow> nl = []) \<and>
     (lines \<noteq> [] \<longrightarrow> nl \<noteq> [] \<and> hd nl = hd lines \<and> subseq (tl lines) (tl nl))"

section \<open>Properties of the normalizer\<close>

lemma lower_char_az09sp: "is_az09sp c \<Longrightarrow> lower_char c = c"
  by (auto simp: is_az09sp_def lower_char_def Let_def)

lemma of_char_32: "(of_char c :: nat) = 32 \<Longrightarrow> c = CHR '' ''"
proof -
  assume a: "(of_char c :: nat) = 32"
  have "char_of (of_char c :: nat) = c" by simp
  with a have "c = char_of (32::nat)" by simp
  also have "char_of (32::nat) = CHR '' ''" by code_simp
  finally show ?thesis .
qed

lemma space_az09sp: "is_az09sp c \<Longrightarrow> is_space c \<Longrightarrow> c = CHR '' ''"
  by (auto simp: is_az09sp_def is_space_def Let_def of_char_32)

lemma is_space_sp: "is_space (CHR '' '')"
  by (simp add: is_space_def)

lemma is_az09sp_sp: "is_az09sp (CHR '' '')"
  by (simp add: is_az09sp_def)

lemma clean_fix: "\<forall>c\<in>set u. is_az09sp c \<Longrightarrow> sub_non_az09sp (lower u) = u"
  by (induction u) (auto simp: sub_non_az09sp_def lower_def lower_char_az09sp)

lemma clean_set: "\<forall>c\<in>set (sub_non_az09sp u). is_az09sp c"
  by (auto simp: sub_non_az09sp_def is_az09sp_sp)

lemma set_sub_ws_runs: "set (sub_ws_runs xs) \<subseteq> insert (CHR '' '') (set xs)"
  by (induction xs rule: sub_ws_runs.induct) (auto dest: set_dropWhileD)

lemma hd_sub_ws_runs: "xs \<noteq> [] \<Longrightarrow> \<not> is_space (hd xs) \<Longrightarrow> hd (sub_ws_runs xs) = hd xs \<and> sub_ws_runs xs \<noteq> []"
  by (cases xs) auto

lemma squeezed_Cons: "squeezed (c # cs) \<longleftrightarrow> (cs = [] \<or> (\<not> (is_space c \<and> is_space (hd cs)) \<and> squeezed cs))"
  by (cases cs) auto

lemma squeezed_sub_ws_runs: "squeezed (sub_ws_runs xs)"
proof (induction xs rule: sub_ws_runs.induct)
  case 1
  show ?case by simp
next
  case (2 c cs)
  show ?case
  proof (cases "is_space c")
    case True
    let ?r = "dropWhile is_space cs"
    have h: "sub_ws_runs ?r = [] \<or> \<not> is_space (hd (sub_ws_runs ?r))"
    proof (cases "?r = []")
      case True
      then show ?thesis by (simp del: dropWhile_eq_Nil_conv)
    next
      case False
      then have "\<not> is_space (hd ?r)" using hd_dropWhile by blast
      with False show ?thesis using hd_sub_ws_runs[of ?r] by (simp del: dropWhile_eq_Nil_conv)
    qed
    have sq: "squeezed (sub_ws_runs ?r)" using 2 True by simp
    have "squeezed (CHR '' '' # sub_ws_runs ?r)"
      unfolding squeezed_Cons using h sq by blast
    with True show ?thesis by simp
  next
    case False
    with 2 show ?thesis by (cases cs) (auto simp: squeezed_Cons)
  qed
qed

lemma sub_ws_runs_fix:
  "squeezed u \<Longrightarrow> \<forall>c\<in>set u. is_space c \<longrightarrow> c = CHR '' '' \<Longrightarrow> sub_ws_runs u = u"
proof (induction u rule: sub_ws_runs.induct)
  case 1
  show ?case by simp
next
  case (2 c cs)
  show ?case
  proof (cases "is_space c")
    case True
    from "2.prems" True have c: "c = CHR '' ''" by simp
    from "2.prems" True have nsp: "cs = [] \<or> \<not> is_space (hd cs)" and sq: "squeezed cs"
      by (auto simp: squeezed_Cons)
    from nsp have dw: "dropWhile is_space cs = cs" by (cases cs) auto
    from "2.IH"(1)[OF True] sq "2.prems" dw have "sub_ws_runs cs = cs" by simp
    with True c dw show ?thesis by simp
  next
    case False
    from "2.prems" have sq: "squeezed cs" by (auto simp: squeezed_Cons)
    from "2.IH"(2)[OF False sq] "2.prems" False show ?thesis by simp
  qed
qed

lemma squeezed_append_left: "squeezed (xs @ ys) \<Longrightarrow> squeezed xs"
  by (induction xs rule: squeezed.induct) (auto simp: squeezed_Cons)

lemma squeezed_append_right: "squeezed (xs @ ys) \<Longrightarrow> squeezed ys"
  by (induction xs) (auto simp: squeezed_Cons split: if_splits)

lemma squeezed_dropWhile: "squeezed xs \<Longrightarrow> squeezed (dropWhile P xs)"
  by (metis squeezed_append_right takeWhile_dropWhile_id)

lemma rev_dropWhile_rev_prefix: "\<exists>zs. xs = rev (dropWhile P (rev xs)) @ zs"
  by (metis rev_append rev_rev_ident takeWhile_dropWhile_id)

lemma squeezed_strip: "squeezed xs \<Longrightarrow> squeezed (strip xs)"
  unfolding strip_def
  by (metis rev_dropWhile_rev_prefix squeezed_append_left squeezed_dropWhile)

lemma set_strip: "set (strip xs) \<subseteq> set xs"
  unfolding strip_def by (metis set_dropWhileD set_rev subsetI)

lemma last_dropWhile: "dropWhile P xs \<noteq> [] \<Longrightarrow> last (dropWhile P xs) = last xs"
  by (metis last_appendR takeWhile_dropWhile_id)

lemma strip_ends: "strip xs \<noteq> [] \<Longrightarrow> \<not> is_space (hd (strip xs)) \<and> \<not> is_space (last (strip xs))"
proof -
  assume ne: "strip xs \<noteq> []"
  let ?d = "dropWhile is_space xs"
  let ?e = "dropWhile is_space (rev ?d)"
  from ne have e: "?e \<noteq> []" by (simp add: strip_def)
  have "?d = [] \<Longrightarrow> ?e = []" by (simp del: dropWhile_eq_Nil_conv)
  with e have d: "?d \<noteq> []" by blast
  have "last (strip xs) = hd ?e" using e by (simp add: strip_def last_rev)
  moreover have "\<not> is_space (hd ?e)" using e hd_dropWhile by blast
  moreover have "hd (strip xs) = last ?e" using e by (simp add: strip_def hd_rev)
  moreover have "last ?e = last (rev ?d)" using e last_dropWhile by blast
  moreover have "last (rev ?d) = hd ?d" using d by (simp add: last_rev)
  moreover have "\<not> is_space (hd ?d)" using d hd_dropWhile by blast
  ultimately show ?thesis by simp
qed

lemma strip_fix: "u = [] \<or> (\<not> is_space (hd u) \<and> \<not> is_space (last u)) \<Longrightarrow> strip u = u"
proof (cases u)
  case Nil
  then show ?thesis by (simp add: strip_def)
next
  case (Cons a as)
  assume "u = [] \<or> (\<not> is_space (hd u) \<and> \<not> is_space (last u))"
  with Cons have h: "\<not> is_space (hd u)" and l: "\<not> is_space (last u)" by auto
  from h Cons have 1: "dropWhile is_space u = u" by simp
  have "hd (rev u) = last u" using Cons by (metis hd_rev list.distinct(1))
  with l have "\<not> is_space (hd (rev u))" by simp
  with Cons have 2: "dropWhile is_space (rev u) = rev u" by (cases "rev u") auto
  show ?thesis by (simp add: strip_def 1 2)
qed

lemma normalize_fix:
  assumes "\<forall>c\<in>set u. is_az09sp c" and "squeezed u"
    and "u = [] \<or> (\<not> is_space (hd u) \<and> \<not> is_space (last u))"
  shows "normalize (Some u) = u"
proof -
  have "\<forall>c\<in>set u. is_space c \<longrightarrow> c = CHR '' ''" using assms(1) space_az09sp by blast
  then show ?thesis using assms by (simp add: normalize_def clean_fix sub_ws_runs_fix strip_fix)
qed

lemma normalize_chars: "\<forall>c\<in>set (normalize s). is_az09sp c"
proof -
  let ?x = "sub_non_az09sp (lower (case s of None \<Rightarrow> [] | Some x \<Rightarrow> x))"
  have "set (normalize s) \<subseteq> set (sub_ws_runs ?x)" unfolding normalize_def by (rule set_strip)
  also have "\<dots> \<subseteq> insert (CHR '' '') (set ?x)" by (rule set_sub_ws_runs)
  finally show ?thesis using clean_set[of "lower (case s of None \<Rightarrow> [] | Some x \<Rightarrow> x)"] is_az09sp_sp by blast
qed

lemma normalize_squeezed: "squeezed (normalize s)"
  unfolding normalize_def by (rule squeezed_strip) (rule squeezed_sub_ws_runs)

lemma normalize_ends: "normalize s \<noteq> [] \<Longrightarrow> \<not> is_space (hd (normalize s)) \<and> \<not> is_space (last (normalize s))"
  unfolding normalize_def by (rule strip_ends)

lemma normalize_idem: "normalize (Some (normalize s)) = normalize s"
  using normalize_fix[OF normalize_chars normalize_squeezed] normalize_ends by blast

section \<open>Properties of the classifier\<close>

lemma split_sp_ne: "split_sp t \<noteq> []"
  by (cases t) auto

lemma prefix_word:
  "CHR '' '' \<notin> set v \<Longrightarrow> prefix (v @ '' '') (t @ '' '') \<longleftrightarrow> hd (split_sp t) = v"
proof (induction t arbitrary: v)
  case Nil
  then show ?case by (cases v) auto
next
  case (Cons c cs)
  show ?case
  proof (cases v)
    case Nil
    then show ?thesis by auto
  next
    case (Cons d ds)
    with Cons.prems Cons.IH[of ds] show ?thesis by auto
  qed
qed

lemma contains_word_tl:
  "CHR '' '' \<notin> set v \<Longrightarrow> contains (t @ '' '') (CHR '' '' # v @ '' '') \<longleftrightarrow> v \<in> set (tl (split_sp t))"
proof (induction t)
  case Nil
  then show ?case by simp
next
  case (Cons c cs)
  have "set (split_sp cs) = insert (hd (split_sp cs)) (set (tl (split_sp cs)))"
    using split_sp_ne[of cs] by (cases "split_sp cs") auto
  with Cons prefix_word[of v cs] show ?case by auto
qed

lemma contains_word:
  assumes "CHR '' '' \<notin> set v"
  shows "contains ('' '' @ t @ '' '') ('' '' @ v @ '' '') \<longleftrightarrow> v \<in> set (split_sp t)"
proof -
  have "set (split_sp t) = insert (hd (split_sp t)) (set (tl (split_sp t)))"
    using split_sp_ne[of t] by (cases "split_sp t") auto
  with contains_word_tl[OF assms, of t] prefix_word[OF assms, of t] show ?thesis by auto
qed

lemma startswith_word:
  assumes "CHR '' '' \<notin> set v" and "startswith t (v @ '' '')"
  shows "v \<in> set (split_sp t)"
proof -
  from assms(2) have "prefix (v @ '' '') (t @ '' '')" by (simp add: startswith_def)
  with prefix_word[OF assms(1), of t] have "hd (split_sp t) = v" by simp
  then show ?thesis using split_sp_ne[of t] by (cases "split_sp t") auto
qed

lemma any_verb_iff:
  "any_verb t vs \<longleftrightarrow> (\<exists>v\<in>set vs. startswith t (v @ '' '') \<or> contains ('' '' @ t @ '' '') ('' '' @ v @ '' ''))"
  by (induction vs) auto

lemma verbs_no_space: "v \<in> set ACTION_VERBS \<Longrightarrow> CHR '' '' \<notin> set v"
  by (auto simp: ACTION_VERBS_def)

lemma is_actionable_words:
  "is_actionable title \<longleftrightarrow> (\<exists>v\<in>set ACTION_VERBS. v \<in> set (split_sp (normalize (Some title))))"
  unfolding is_actionable_def any_verb_iff
  using verbs_no_space contains_word startswith_word by blast

section \<open>Properties of the matcher and of one loop step\<close>

lemma best_match_loop_spec:
  "best_match_loop score (enumerate n xs) (bi, bs) = (ri, rs) \<Longrightarrow>
     (ri = bi \<and> rs = bs \<and> (\<forall>j<length xs. score (xs ! j) \<le> bs)) \<or>
     (\<exists>i. ri = Some (n + i) \<and> i < length xs \<and> rs = score (xs ! i) \<and> bs < rs \<and>
          (\<forall>j<length xs. score (xs ! j) \<le> rs) \<and> (\<forall>j<i. score (xs ! j) < rs))"
proof (induction xs arbitrary: n bi bs)
  case Nil
  then show ?case by simp
next
  case (Cons x xs)
  show ?case
  proof (cases "score x > bs")
    case True
    with Cons.prems have run: "best_match_loop score (enumerate (Suc n) xs) (Some n, score x) = (ri, rs)"
      by simp
    from Cons.IH[OF run] show ?thesis
    proof
      assume a: "ri = Some n \<and> rs = score x \<and> (\<forall>j<length xs. score (xs ! j) \<le> score x)"
      have "ri = Some (n + 0) \<and> 0 < length (x # xs) \<and> rs = score ((x # xs) ! 0) \<and> bs < rs \<and>
          (\<forall>j<length (x # xs). score ((x # xs) ! j) \<le> rs) \<and> (\<forall>j<0. score ((x # xs) ! j) < rs)"
        using a True by (auto simp: nth_Cons')
      then show ?thesis by blast
    next
      assume "\<exists>i. ri = Some (Suc n + i) \<and> i < length xs \<and> rs = score (xs ! i) \<and> score x < rs \<and>
          (\<forall>j<length xs. score (xs ! j) \<le> rs) \<and> (\<forall>j<i. score (xs ! j) < rs)"
      then obtain i where i: "ri = Some (Suc n + i)" "i < length xs" "rs = score (xs ! i)"
        "score x < rs" "\<forall>j<length xs. score (xs ! j) \<le> rs" "\<forall>j<i. score (xs ! j) < rs" by blast
      have "ri = Some (n + Suc i) \<and> Suc i < length (x # xs) \<and> rs = score ((x # xs) ! Suc i) \<and> bs < rs \<and>
          (\<forall>j<length (x # xs). score ((x # xs) ! j) \<le> rs) \<and> (\<forall>j<Suc i. score ((x # xs) ! j) < rs)"
        using i True by (auto simp: nth_Cons' less_Suc_eq_0_disj)
      then show ?thesis by blast
    qed
  next
    case False
    with Cons.prems have run: "best_match_loop score (enumerate (Suc n) xs) (bi, bs) = (ri, rs)"
      by simp
    from Cons.IH[OF run] show ?thesis
    proof
      assume "ri = bi \<and> rs = bs \<and> (\<forall>j<length xs. score (xs ! j) \<le> bs)"
      with False show ?thesis by (auto simp: nth_Cons' less_Suc_eq_0_disj)
    next
      assume "\<exists>i. ri = Some (Suc n + i) \<and> i < length xs \<and> rs = score (xs ! i) \<and> bs < rs \<and>
          (\<forall>j<length xs. score (xs ! j) \<le> rs) \<and> (\<forall>j<i. score (xs ! j) < rs)"
      then obtain i where i: "ri = Some (Suc n + i)" "i < length xs" "rs = score (xs ! i)"
        "bs < rs" "\<forall>j<length xs. score (xs ! j) \<le> rs" "\<forall>j<i. score (xs ! j) < rs" by blast
      have "ri = Some (n + Suc i) \<and> Suc i < length (x # xs) \<and> rs = score ((x # xs) ! Suc i) \<and> bs < rs \<and>
          (\<forall>j<length (x # xs). score ((x # xs) ! j) \<le> rs) \<and> (\<forall>j<Suc i. score ((x # xs) ! j) < rs)"
        using i False by (auto simp: nth_Cons' less_Suc_eq_0_disj)
      then show ?thesis by blast
    qed
  qed
qed

lemma best_match_None:
  "best_match env orig lines = (None, s) \<Longrightarrow>
     s = 0 \<and> (\<forall>j<length lines. line_score env orig (lines ! j) \<le> 0)"
  unfolding best_match_def by (drule best_match_loop_spec) auto

lemma best_match_Some:
  "best_match env orig lines = (Some i, s) \<Longrightarrow>
     i < length lines \<and> s = line_score env orig (lines ! i) \<and> 0 < s \<and>
     (\<forall>j<length lines. line_score env orig (lines ! j) \<le> s) \<and>
     (\<forall>j<i. line_score env orig (lines ! j) < s)"
  unfolding best_match_def by (drule best_match_loop_spec) auto

lemma process_item_skip:
  "rec_decision (filter_decision env thr it) \<noteq> Insert \<Longrightarrow>
   process_item env sugg thr lines k st it = st\<lparr>records := records st @ [filter_decision env thr it]\<rparr>"
  by (simp add: process_item_def Let_def)

lemma process_item_dropped:
  "best_match env (original it) lines = (bi, s) \<Longrightarrow> bi = None \<or> s < 2 / 10 \<Longrightarrow>
   process_item env sugg thr lines k st it = st\<lparr>records := records st @ [filter_decision env thr it]\<rparr>"
  by (auto simp: process_item_def Let_def split: option.splits)

lemma process_item_present:
  "best_match env (original it) lines = (Some b, s) \<Longrightarrow>
   already_present (window_of (new_lines st) (b + 1 + offset st))
     (human_note_of (extract_title (suggested_text it)))
     (machine_comment_of env sugg k (original it) (extract_title (suggested_text it))) \<Longrightarrow>
   process_item env sugg thr lines k st it = st\<lparr>records := records st @ [filter_decision env thr it]\<rparr>"
  by (auto simp: process_item_def Let_def filter_decision_def split: option.splits)

lemma process_item_accepted:
  "rec_decision (filter_decision env thr it) = Insert \<Longrightarrow>
   best_match env (original it) lines = (Some b, s) \<Longrightarrow> \<not> s < 2 / 10 \<Longrightarrow>
   \<not> already_present (window_of (new_lines st) (b + 1 + offset st))
     (human_note_of (extract_title (suggested_text it)))
     (machine_comment_of env sugg k (original it) (extract_title (suggested_text it))) \<Longrightarrow>
   process_item env sugg thr lines k st it =
     st\<lparr>records := records st @ [filter_decision env thr it],
        new_lines := insert_at (b + 1 + offset st + 1)
           (machine_comment_of env sugg k (original it) (extract_title (suggested_text it)))
           (insert_at (b + 1 + offset st) (human_note_of (extract_title (suggested_text it)))
              (new_lines st)),
        offset := offset st + 2, inserted := inserted st + 1\<rparr>"
  by (auto simp: process_item_def Let_def filter_decision_def split: option.splits)

lemma process_item_cases:
  "process_item env sugg thr lines k st it = st\<lparr>records := records st @ [filter_decision env thr it]\<rparr> \<or>
   (\<exists>b hn mc. b < length lines \<and>
      process_item env sugg thr lines k st it =
        st\<lparr>records := records st @ [filter_decision env thr it],
           new_lines := insert_at (b + 1 + offset st + 1) mc (insert_at (b + 1 + offset st) hn (new_lines st)),
           offset := offset st + 2, inserted := inserted st + 1\<rparr>)"
proof (cases "rec_decision (filter_decision env thr it) = Insert")
  case False
  then show ?thesis by (simp add: process_item_skip)
next
  case True
  obtain bi s where bm: "best_match env (original it) lines = (bi, s)" by (cases "best_match env (original it) lines")
  show ?thesis
  proof (cases "bi = None \<or> s < 2 / 10")
    case True
    with bm show ?thesis by (simp add: process_item_dropped)
  next
    case False
    then obtain b where b: "bi = Some b" and s: "\<not> s < 2 / 10" by auto
    from bm b best_match_Some have lt: "b < length lines" by blast
    show ?thesis
    proof (cases "already_present (window_of (new_lines st) (b + 1 + offset st))
       (human_note_of (extract_title (suggested_text it)))
       (machine_comment_of env sugg k (original it) (extract_title (suggested_text it)))")
      case True
      with bm b show ?thesis by (simp add: process_item_present)
    next
      case False
      from process_item_accepted[OF \<open>rec_decision (filter_decision env thr it) = Insert\<close> bm[unfolded b] s False] lt
      show ?thesis by blast
    qed
  qed
qed

lemma process_item_records:
  "records (process_item env sugg thr lines k st it) = records st @ [filter_decision env thr it]"
  using process_item_cases[of env sugg thr lines k st it] by auto

lemma process_items_records:
  "records (process_items env sugg thr lines k st its) = records st @ map (filter_decision env thr) its"
  by (induction its arbitrary: k st) (auto simp: process_item_records)

lemma process_items_append:
  "process_items env sugg thr lines k st (xs @ ys) =
     process_items env sugg thr lines (k + length xs) (process_items env sugg thr lines k st xs) ys"
  by (induction xs arbitrary: k st) auto

lemma length_insert_at: "length (insert_at i x xs) = Suc (length xs)"
  by (simp add: insert_at_def)

lemma loop_inv_step: "loop_inv lines st \<Longrightarrow> loop_inv lines (process_item env sugg thr lines k st it)"
  using process_item_cases[of env sugg thr lines k st it]
  by (auto simp: loop_inv_def length_insert_at)

lemma loop_inv_run: "loop_inv lines st \<Longrightarrow> loop_inv lines (process_items env sugg thr lines k st its)"
  by (induction its arbitrary: k st) (auto simp: loop_inv_step)

lemma loop_inv_init: "loop_inv lines (initial_state lines)"
  by (simp add: loop_inv_def initial_state_def)

section \<open>Windows, joins and the frame of the loop\<close>

lemma contains_sublist: "contains hay needle \<longleftrightarrow> sublist needle hay"
  by (induction hay) (auto simp: sublist_Cons_right)

lemma sublist_join_nl: "l \<in> set w \<Longrightarrow> sublist x l \<Longrightarrow> sublist x (join_nl w)"
proof (induction w rule: join_nl.induct)
  case 1
  then show ?case by simp
next
  case (2 y)
  then show ?case by simp
next
  case (3 y z zs)
  show ?case
  proof (cases "l = y")
    case True
    with 3 show ?thesis by (metis join_nl.simps(3) sublist_appendI sublist_order.order.trans prefix_imp_sublist prefixI)
  next
    case False
    with 3 have "sublist x (join_nl (z # zs))" by auto
    then show ?thesis by (metis join_nl.simps(3) sublist_Cons_right sublist_append)
  qed
qed

lemma contains_join_nl: "l \<in> set w \<Longrightarrow> contains l x \<Longrightarrow> contains (join_nl w) x"
  by (simp add: contains_sublist sublist_join_nl)

lemma take_drop_nth_upt:
  "hi \<le> length xs \<Longrightarrow> take (hi - lo) (drop lo xs) = map (\<lambda>j. xs ! j) [lo ..< hi]"
  by (rule nth_equalityI) auto

lemma window_of_nth:
  "window_of nl idx = map (\<lambda>j. nl ! j) [idx - 2 ..< min (length nl) (idx + 3)]"
proof -
  have lo: "nat (max 0 (int idx - 2)) = idx - 2" by auto
  have hi: "nat (min (int (length nl)) (int idx + 3) - max 0 (int idx - 2)) = min (length nl) (idx + 3) - (idx - 2)"
    by auto
  show ?thesis
    unfolding window_of_def slice_def lo hi
    by (rule take_drop_nth_upt) simp
qed

lemma subseq_insert_at: "subseq xs ys \<Longrightarrow> subseq xs (insert_at i a ys)"
proof -
  assume a: "subseq xs ys"
  have "subseq ys (take i ys @ a # drop i ys)"
    by (metis append_take_drop_id subseq_Cons' list_emb_append_mono subseq_order.order_refl)
  with a show ?thesis unfolding insert_at_def using subseq_order.order_trans by blast
qed

lemma insert_at_Cons: "0 < i \<Longrightarrow> insert_at i a (x # xs) = x # insert_at (i - 1) a xs"
  by (cases i) (auto simp: insert_at_def)

lemma frame_inv_insert:
  assumes "frame_inv lines nl" and "0 < i" and "lines \<noteq> []"
  shows "frame_inv lines (insert_at i a nl)"
proof -
  from assms obtain x rest where nl: "nl = x # rest" by (cases nl) (auto simp: frame_inv_def)
  with assms show ?thesis
    by (auto simp: frame_inv_def insert_at_Cons subseq_insert_at)
qed

lemma frame_inv_step:
  "frame_inv lines (new_lines st) \<Longrightarrow>
   frame_inv lines (new_lines (process_item env sugg thr lines k st it))"
proof -
  assume inv: "frame_inv lines (new_lines st)"
  from process_item_cases[of env sugg thr lines k st it] show ?thesis
  proof
    assume "process_item env sugg thr lines k st it = st\<lparr>records := records st @ [filter_decision env thr it]\<rparr>"
    with inv show ?thesis by simp
  next
    assume "\<exists>b hn mc. b < length lines \<and>
      process_item env sugg thr lines k st it =
        st\<lparr>records := records st @ [filter_decision env thr it],
           new_lines := insert_at (b + 1 + offset st + 1) mc (insert_at (b + 1 + offset st) hn (new_lines st)),
           offset := offset st + 2, inserted := inserted st + 1\<rparr>"
    then obtain b hn mc where b: "b < length lines"
      and eq: "new_lines (process_item env sugg thr lines k st it) =
           insert_at (b + 1 + offset st + 1) mc (insert_at (b + 1 + offset st) hn (new_lines st))"
      by auto
    from b have ne: "lines \<noteq> []" by auto
    have "frame_inv lines (insert_at (b + 1 + offset st) hn (new_lines st))"
      by (rule frame_inv_insert[OF inv _ ne]) simp
    then have "frame_inv lines (insert_at (b + 1 + offset st + 1) mc (insert_at (b + 1 + offset st) hn (new_lines st)))"
      by (rule frame_inv_insert[OF _ _ ne]) simp
    with eq show ?thesis by simp
  qed
qed

lemma frame_inv_run:
  "frame_inv lines (new_lines st) \<Longrightarrow>
   frame_inv lines (new_lines (process_items env sugg thr lines k st its))"
  by (induction its arbitrary: k st) (auto simp: frame_inv_step)

lemma frame_inv_init: "frame_inv lines (new_lines (initial_state lines))"
  by (simp add: frame_inv_def initial_state_def)

lemma frame_inv_subseq: "frame_inv lines nl \<Longrightarrow> subseq lines nl"
  by (cases lines; cases nl) (auto simp: frame_inv_def)

lemma join_nl_snoc: "join_nl (xs @ [x]) = (if xs = [] then x else join_nl xs @ CHR 0x0A # x)"
  by (induction xs rule: join_nl.induct) auto

lemma endswith_join_nl:
  "final \<noteq> [] \<Longrightarrow>
   endswith (join_nl final) [CHR 0x0A] \<longleftrightarrow>
     (endswith (last final) [CHR 0x0A] \<or> (last final = [] \<and> 2 \<le> length final))"
proof -
  assume "final \<noteq> []"
  then obtain xs x where f: "final = xs @ [x]" by (metis rev_exhaust)
  show ?thesis
  proof (cases "xs = []")
    case True
    with f show ?thesis by (auto simp: endswith_def)
  next
    case False
    with f show ?thesis
      by (cases x rule: rev_cases) (auto simp: endswith_def join_nl_snoc suffix_def Suc_le_eq)
  qed
qed

lemma insert_at_twice:
  "idx \<le> length nl \<Longrightarrow>
   insert_at (Suc idx) b (insert_at idx a nl) = take idx nl @ [a, b] @ drop idx nl"
  by (simp add: insert_at_def min_def)

lemma process_items_snoc:
  "process_items env sugg thr lines 0 st0 (pre @ [it]) =
     process_item env sugg thr lines (length pre) (process_items env sugg thr lines 0 st0 pre) it"
  by (simp add: process_items_append)

lemma update_last_review_replace:
  "nl \<noteq> [] \<Longrightarrow> is_review (hd nl) \<Longrightarrow> update_last_review nl ll = ll # tl nl"
  by (cases nl) (auto simp: update_last_review_def is_review_def)

lemma update_last_review_insert:
  "\<not> (nl \<noteq> [] \<and> is_review (hd nl)) \<Longrightarrow> update_last_review nl ll = ll # nl"
  by (auto simp: update_last_review_def is_review_def insert_at_def)

lemma is_review_last_line: "is_review (last_line_of env sugg)"
  by (simp add: is_review_def startswith_def last_line_of_def)

lemma out_lines_main:
  "out_lines (main_core env sugg t content) =
     update_last_review (new_lines (after_loop env sugg t content)) (last_line_of env sugg)"
  by (simp add: main_core_def Let_def)

lemma out_content_main:
  "out_content (main_core env sugg t content) =
     join_nl (out_lines (main_core env sugg t content)) @
       (if endswith content [CHR 0x0A] then [CHR 0x0A] else [])"
  by (simp add: main_core_def Let_def)

lemma out_records_main:
  "out_records (main_core env sugg t content) =
     map (filter_decision env (threshold_arg t)) (items sugg)"
  by (simp add: main_core_def after_loop_def Let_def process_items_records initial_state_def)

lemma frame_after_loop:
  "frame_inv (splitlines content) (new_lines (after_loop env sugg t content))"
  unfolding after_loop_def Let_def by (rule frame_inv_run[OF frame_inv_init])

lemma example_run_lines:
  "new_lines (process_items example_env example_sugg THRESHOLD example_lines 0
     (initial_state example_lines) example_items) =
   [''t'', ''a'', ''11'', human_note_of ''Create plan'',
    machine_comment_of example_env example_sugg 0 (Some ''11'') ''Create plan'',
    ''b'', ''c'', ''33'', human_note_of ''Verify it'',
    machine_comment_of example_env example_sugg 1 (Some ''33'') ''Verify it'', ''z'']"
  by code_simp

lemma example_note_not_marker:
  "human_note_of ''Verify it'' \<noteq> machine_comment_of example_env example_sugg 1 (Some ''33'') ''Verify it''"
  by code_simp

section \<open>The claims\<close>

text \<open>
  Claim C7. \<^const>\<open>normalize\<close> is a total function: on \<open>None\<close> and on the empty string it
  returns the empty string; normalizing a normalized string changes nothing; the result
  is the lower-cased input with every character outside \<^verbatim>\<open>[a-z0-9 ]\<close> replaced by a
  space, whitespace runs collapsed to one space and both ends trimmed, so it consists of
  \<^verbatim>\<open>[a-z0-9 ]\<close> only, has no two spaces in a row and neither starts nor ends with one;
  and \<^verbatim>\<open>normalize("Hello, World!!  123")\<close> is \<^verbatim>\<open>"hello world 123"\<close>.
\<close>

theorem normalize_total_idempotent:
  "normalize None = [] \<and> normalize (Some []) = [] \<and>
   normalize (Some (normalize s)) = normalize s \<and>
   normalize (Some ''Hello, World!!  123'') = ''hello world 123'' \<and>
   normalize s = strip (sub_ws_runs (sub_non_az09sp (lower (case s of None \<Rightarrow> [] | Some x \<Rightarrow> x)))) \<and>
   (\<forall>c\<in>set (normalize s). is_az09sp c) \<and> squeezed (normalize s) \<and>
   (normalize s \<noteq> [] \<longrightarrow> \<not> is_space (hd (normalize s)) \<and> \<not> is_space (last (normalize s)))"
proof -
  have 1: "normalize None = []" by code_simp
  have 2: "normalize (Some []) = []" by code_simp
  have 3: "normalize (Some ''Hello, World!!  123'') = ''hello world 123''" by code_simp
  have 4: "normalize s = strip (sub_ws_runs (sub_non_az09sp (lower (case s of None \<Rightarrow> [] | Some x \<Rightarrow> x))))"
    by (simp add: normalize_def)
  from 1 2 3 4 normalize_idem normalize_chars normalize_squeezed normalize_ends
  show ?thesis by blast
qed

theorem normalize_total_idempotent_witness:
  "normalize (Some ''  Fix: the   BUG #42!  '') = ''fix the bug 42'' \<and>
   normalize (Some (normalize (Some ''  Fix: the   BUG #42!  ''))) = ''fix the bug 42'' \<and>
   normalize (Some ''  Fix: the   BUG #42!  '') \<noteq> [] \<and>
   \<not> is_space (hd (normalize (Some ''  Fix: the   BUG #42!  '')))"
proof -
  have e: "normalize (Some ''  Fix: the   BUG #42!  '') = ''fix the bug 42''" by code_simp
  then have ne: "normalize (Some ''  Fix: the   BUG #42!  '') \<noteq> []" by simp
  from normalize_total_idempotent[of "Some ''  Fix: the   BUG #42!  ''"] e ne
  show ?thesis by metis
qed

text \<open>
  Claim C6, as stated, fails: the normalized title \<^verbatim>\<open>testing the app\<close> starts with the
  verb \<^verbatim>\<open>test\<close>, so the classifier worded as in the claim accepts it, while
  \<^const>\<open>is_actionable\<close> rejects it, since the script asks for the verb followed by a space.
\<close>

theorem is_actionable_prefix_counterexample:
  "is_actionable_spec ''Testing the app'' \<and> \<not> is_actionable ''Testing the app''"
  by code_simp

text \<open>
  Claim C6, amended. \<^const>\<open>is_actionable\<close> holds if and only if the normalized title
  starts with one of the twelve verbs followed by a space, or contains one of them as a
  separate space-delimited word; the first case is an instance of the second, so the
  title is actionable exactly when one of its words is a verb of the list. A verb inside
  a longer word does not count: \<^verbatim>\<open>recreate\<close> is not actionable.
\<close>

theorem is_actionable_word_boundary:
  "(is_actionable title \<longleftrightarrow>
      (\<exists>v\<in>set ACTION_VERBS.
         startswith (normalize (Some title)) (v @ '' '') \<or> v \<in> set (split_sp (normalize (Some title))))) \<and>
   (is_actionable title \<longleftrightarrow> (\<exists>v\<in>set ACTION_VERBS. v \<in> set (split_sp (normalize (Some title))))) \<and>
   length ACTION_VERBS = 12 \<and>
   is_actionable ''Create a new draft doc'' \<and> \<not> is_actionable ''Vague thought about stuff'' \<and>
   \<not> is_actionable ''recreate''"
proof -
  have a: "is_actionable title \<longleftrightarrow> (\<exists>v\<in>set ACTION_VERBS. v \<in> set (split_sp (normalize (Some title))))"
    by (rule is_actionable_words)
  have b: "is_actionable title \<longleftrightarrow>
      (\<exists>v\<in>set ACTION_VERBS.
         startswith (normalize (Some title)) (v @ '' '') \<or> v \<in> set (split_sp (normalize (Some title))))"
    using a verbs_no_space startswith_word by blast
  have c: "length ACTION_VERBS = 12" by (simp add: ACTION_VERBS_def)
  have d: "is_actionable ''Create a new draft doc''" by code_simp
  have e: "\<not> is_actionable ''Vague thought about stuff''" by code_simp
  have f: "\<not> is_actionable ''recreate''" by code_simp
  from a b c d e f show ?thesis by blast
qed

theorem is_actionable_word_boundary_witness:
  "''test'' \<in> set ACTION_VERBS \<and> ''test'' \<in> set (split_sp (normalize (Some ''Run the test now''))) \<and>
   is_actionable ''Run the test now''"
proof -
  have v: "''test'' \<in> set ACTION_VERBS" by (simp add: ACTION_VERBS_def)
  have w: "''test'' \<in> set (split_sp (normalize (Some ''Run the test now'')))" by code_simp
  from is_actionable_word_boundary[of "''Run the test now''"] v w show ?thesis by blast
qed

text \<open>
  Claim C1. The decision of the filter is fixed in this order: similarity of the
  normalized original and the normalized title at or above the threshold gives
  \<open>SkipSimilar\<close>; otherwise a title that is not actionable gives \<open>SkipNotActionable\<close>;
  otherwise \<open>Insert\<close>. The threshold is 0.85 unless \<^verbatim>\<open>--threshold\<close> overrides it. A
  near-duplicate is \<open>SkipSimilar\<close> even when its title has no verb of the list.
\<close>

theorem filter_decision_order:
  "(let title = extract_title (suggested_text it);
        sim = ratio env (normalize (original it)) (normalize (Some title));
        r = filter_decision env (threshold_arg t) it
    in rec_decision r =
         (if sim \<ge> threshold_arg t then SkipSimilar
          else if \<not> is_actionable title then SkipNotActionable
          else Insert) \<and>
       rec_similarity r = sim \<and> rec_actionable r = is_actionable title \<and> rec_title r = title \<and>
       (sim \<ge> threshold_arg t \<and> \<not> is_actionable title \<longrightarrow> rec_decision r = SkipSimilar)) \<and>
   threshold_arg None = 85 / 100 \<and> threshold_arg (Some x) = x"
  by (simp add: filter_decision_def Let_def threshold_arg_def THRESHOLD_def)

theorem filter_decision_order_witness:
  "ratio example_env (normalize (Some ''Buy milk'')) (normalize (Some (extract_title ''- [ ] Buy milk'')))
     \<ge> threshold_arg None \<and>
   \<not> is_actionable (extract_title ''- [ ] Buy milk'') \<and>
   rec_decision (filter_decision example_env (threshold_arg None)
      \<lparr>original = Some ''Buy milk'', suggested_text = ''- [ ] Buy milk''\<rparr>) = SkipSimilar"
proof -
  have a: "ratio example_env (normalize (Some ''Buy milk'')) (normalize (Some (extract_title ''- [ ] Buy milk'')))
     \<ge> threshold_arg None" by code_simp
  have b: "\<not> is_actionable (extract_title ''- [ ] Buy milk'')" by code_simp
  from filter_decision_order[of "\<lparr>original = Some ''Buy milk'', suggested_text = ''- [ ] Buy milk''\<rparr>" example_env None]
    a b
  show ?thesis by (simp add: Let_def)
qed

text \<open>
  Claim C2. For a suggestion whose decision is \<open>Insert\<close>, the matcher scans the lines of
  the original document (not the growing array) from the top, scores each normalized
  line against the normalized original, and keeps an index only when its score is
  strictly greater than the best so far, starting from 0: the selected line has a
  positive score that no line exceeds and every earlier line scores strictly less, so
  the first of several best lines wins. When no line is selected, or the best score is
  below 0.2, the step changes nothing but the list of records, to which it has appended
  the suggestion's record.
\<close>

theorem best_line_match:
  assumes "rec_decision (filter_decision env thr it) = Insert"
    and "best_match env (original it) lines = (bi, s)"
  shows "(case bi of
            None \<Rightarrow> s = 0 \<and> (\<forall>j<length lines. line_score env (original it) (lines ! j) \<le> 0)
          | Some i \<Rightarrow>
              i < length lines \<and> s = line_score env (original it) (lines ! i) \<and> 0 < s \<and>
              (\<forall>j<length lines. line_score env (original it) (lines ! j) \<le> s) \<and>
              (\<forall>j<i. line_score env (original it) (lines ! j) < s)) \<and>
         (bi = None \<or> s < 2 / 10 \<longrightarrow>
            process_item env sugg thr lines k st it =
              st\<lparr>records := records st @ [filter_decision env thr it]\<rparr>)"
proof -
  have "bi = None \<or> s < 2 / 10 \<longrightarrow>
            process_item env sugg thr lines k st it =
              st\<lparr>records := records st @ [filter_decision env thr it]\<rparr>"
    using process_item_dropped[OF assms(2)] by blast
  moreover have "case bi of
            None \<Rightarrow> s = 0 \<and> (\<forall>j<length lines. line_score env (original it) (lines ! j) \<le> 0)
          | Some i \<Rightarrow>
              i < length lines \<and> s = line_score env (original it) (lines ! i) \<and> 0 < s \<and>
              (\<forall>j<length lines. line_score env (original it) (lines ! j) \<le> s) \<and>
              (\<forall>j<i. line_score env (original it) (lines ! j) < s)"
  proof (cases bi)
    case None
    with assms(2) best_match_None show ?thesis by simp
  next
    case (Some i)
    with assms(2) best_match_Some[of env "original it" lines i s] show ?thesis by auto
  qed
  ultimately show ?thesis by blast
qed

theorem best_line_match_witness:
  "rec_decision (filter_decision example_env THRESHOLD (example_items ! 0)) = Insert \<and>
   best_match example_env (original (example_items ! 0)) tie_lines = (Some 1, 1) \<and>
   line_score example_env (original (example_items ! 0)) (tie_lines ! 3) \<le> 1 \<and>
   rec_decision (filter_decision example_env THRESHOLD stray_item) = Insert \<and>
   best_match example_env (original stray_item) example_lines = (None, 0) \<and>
   process_item example_env example_sugg THRESHOLD example_lines 0 (initial_state example_lines) stray_item =
     (initial_state example_lines)\<lparr>records := records (initial_state example_lines) @ [filter_decision example_env THRESHOLD stray_item]\<rparr>"
proof -
  have a: "rec_decision (filter_decision example_env THRESHOLD (example_items ! 0)) = Insert" by code_simp
  have b: "best_match example_env (original (example_items ! 0)) tie_lines = (Some 1, 1)" by code_simp
  have c: "rec_decision (filter_decision example_env THRESHOLD stray_item) = Insert" by code_simp
  have d: "best_match example_env (original stray_item) example_lines = (None, 0)" by code_simp
  have l: "(3::nat) < length tie_lines" by (simp add: tie_lines_def)
  from best_line_match[OF a b] l
  have e: "line_score example_env (original (example_items ! 0)) (tie_lines ! 3) \<le> 1" by simp
  from best_line_match[OF c d, where sugg = example_sugg and k = 0 and st = "initial_state example_lines"]
  have f: "process_item example_env example_sugg THRESHOLD example_lines 0 (initial_state example_lines) stray_item =
     (initial_state example_lines)\<lparr>records := records (initial_state example_lines) @ [filter_decision example_env THRESHOLD stray_item]\<rparr>"
    by simp
  from a b c d e f show ?thesis by blast
qed

text \<open>
  Claim C3, as stated, fails in its example: with accepted matches at original indices 2
  and then 5, index 8 of the array holds the second insertion's human note; its machine
  marker is at index 9.
\<close>

theorem second_marker_index_counterexample:
  "new_lines (process_items example_env example_sugg THRESHOLD example_lines 0
     (initial_state example_lines) example_items) ! 8
     \<noteq> machine_comment_of example_env example_sugg 1 (Some ''33'') ''Verify it'' \<and>
   new_lines (process_items example_env example_sugg THRESHOLD example_lines 0
     (initial_state example_lines) example_items) ! 9
     = machine_comment_of example_env example_sugg 1 (Some ''33'') ''Verify it''"
  unfolding example_run_lines using example_note_not_marker by simp

text \<open>
  Claim C3, amended. In a state the loop has reached, an accepted insertion places the
  human note at index \<open>best_idx + 1 + offset\<close> of the growing array and the machine
  marker right after it; the index is within the array, the offset grows by exactly 2
  (it is twice the number of insertions so far), and the array stays as long as the
  original document plus the offset. So after one earlier insertion, a match at original
  index 5 puts the pair at index 8 (the note at 8, the machine marker at 9), not at 6.
\<close>

theorem insertion_index_offset:
  assumes "st = process_items env sugg thr lines 0 (initial_state lines) pre"
    and "rec_decision (filter_decision env thr it) = Insert"
    and "best_match env (original it) lines = (Some b, s)"
    and "\<not> s < 2 / 10"
    and "note = human_note_of (extract_title (suggested_text it))"
    and "marker = machine_comment_of env sugg (length pre) (original it) (extract_title (suggested_text it))"
    and "idx = b + 1 + offset st"
    and "\<not> already_present (window_of (new_lines st) idx) note marker"
    and "st' = process_items env sugg thr lines 0 (initial_state lines) (pre @ [it])"
  shows "new_lines st' = take idx (new_lines st) @ [note, marker] @ drop idx (new_lines st) \<and>
         idx \<le> length (new_lines st) \<and>
         new_lines st' ! idx = note \<and> new_lines st' ! (idx + 1) = marker \<and>
         offset st' = offset st + 2 \<and> inserted st' = inserted st + 1 \<and>
         offset st = 2 * inserted st \<and>
         length (new_lines st') = length lines + offset st' \<and>
         (b = 5 \<and> inserted st = 1 \<longrightarrow> new_lines st' ! 8 = note \<and> new_lines st' ! 9 = marker)"
proof -
  have inv: "loop_inv lines st"
    unfolding assms(1) by (rule loop_inv_run[OF loop_inv_init])
  from best_match_Some[OF assms(3)] have b: "b < length lines" by simp
  with inv have le: "idx \<le> length (new_lines st)" by (simp add: loop_inv_def assms(7))
  have step: "st' = process_item env sugg thr lines (length pre) st it"
    unfolding assms(9) assms(1) by (rule process_items_snoc)
  have "st' = st\<lparr>records := records st @ [filter_decision env thr it],
        new_lines := insert_at (idx + 1) marker (insert_at idx note (new_lines st)),
        offset := offset st + 2, inserted := inserted st + 1\<rparr>"
    unfolding step assms(5) assms(6) assms(7)
    using assms(8) unfolding assms(5) assms(6) assms(7)
    by (rule process_item_accepted[OF assms(2) assms(3) assms(4)])
  then have nl: "new_lines st' = take idx (new_lines st) @ [note, marker] @ drop idx (new_lines st)"
    and off: "offset st' = offset st + 2" and ins: "inserted st' = inserted st + 1"
    using le by (simp_all add: insert_at_twice)
  from le have len: "length (take idx (new_lines st)) = idx" by simp
  have n1: "new_lines st' ! idx = note" unfolding nl using len by (metis append_Cons nth_append_length)
  have n2: "new_lines st' ! (idx + 1) = marker"
    unfolding nl using len by (simp add: nth_append)
  have o: "offset st = 2 * inserted st" using inv by (simp add: loop_inv_def)
  have l: "length (new_lines st') = length lines + offset st'"
    unfolding nl off using inv le by (simp add: loop_inv_def)
  have ex: "b = 5 \<and> inserted st = 1 \<longrightarrow> new_lines st' ! 8 = note \<and> new_lines st' ! 9 = marker"
    using n1 n2 o by (auto simp: assms(7))
  from nl le n1 n2 off ins o l ex show ?thesis by blast
qed

theorem insertion_index_offset_witness:
  "rec_decision (filter_decision example_env THRESHOLD (example_items ! 1)) = Insert \<and>
   best_match example_env (original (example_items ! 1)) example_lines = (Some 5, 1) \<and>
   inserted (process_items example_env example_sugg THRESHOLD example_lines 0
               (initial_state example_lines) [example_items ! 0]) = 1 \<and>
   new_lines (process_items example_env example_sugg THRESHOLD example_lines 0
               (initial_state example_lines) ([example_items ! 0] @ [example_items ! 1])) ! 8
     = human_note_of (extract_title (suggested_text (example_items ! 1))) \<and>
   new_lines (process_items example_env example_sugg THRESHOLD example_lines 0
               (initial_state example_lines) ([example_items ! 0] @ [example_items ! 1])) ! 9
     = machine_comment_of example_env example_sugg 1 (original (example_items ! 1))
         (extract_title (suggested_text (example_items ! 1)))"
proof -
  let ?st = "process_items example_env example_sugg THRESHOLD example_lines 0
               (initial_state example_lines) [example_items ! 0]"
  have a: "rec_decision (filter_decision example_env THRESHOLD (example_items ! 1)) = Insert"
    by code_simp
  have b: "best_match example_env (original (example_items ! 1)) example_lines = (Some 5, 1)"
    by code_simp
  have c: "\<not> (1::rat) < 2 / 10" by simp
  have d: "\<not> already_present (window_of (new_lines ?st) (5 + 1 + offset ?st))
             (human_note_of (extract_title (suggested_text (example_items ! 1))))
             (machine_comment_of example_env example_sugg (length [example_items ! 0])
                (original (example_items ! 1)) (extract_title (suggested_text (example_items ! 1))))"
    by code_simp
  have e: "inserted ?st = 1" by code_simp
  have k: "length [example_items ! 0] = 1" by simp
  from insertion_index_offset[OF refl a b c refl refl refl d refl, unfolded k] e a b
  show ?thesis by blast
qed

text \<open>
  Claim C4. Before inserting, the step looks at the lines of the growing array from two
  before the insertion point through the third after it (indices \<open>idx - 2\<close> to
  \<open>idx + 2\<close>, cut at the ends of the array). If the stripped human note or the machine
  marker occurs in that window, in particular inside one of its lines, the step inserts
  nothing and leaves the offset and the count of insertions alone, while the record it
  appends still says \<open>Insert\<close>. The worked example runs the step on the document a first
  run has produced: no second pair of lines appears.
\<close>

theorem window_guard_skips:
  assumes "rec_decision (filter_decision env thr it) = Insert"
    and "best_match env (original it) lines = (Some b, s)"
    and "\<not> s < 2 / 10"
    and "note = human_note_of (extract_title (suggested_text it))"
    and "marker = machine_comment_of env sugg k (original it) (extract_title (suggested_text it))"
    and "idx = b + 1 + offset st"
    and "already_present (window_of (new_lines st) idx) note marker"
    and "st' = process_item env sugg thr lines k st it"
  shows "window_of (new_lines st) idx =
           map (\<lambda>j. new_lines st ! j) [idx - 2 ..< min (length (new_lines st)) (idx + 3)] \<and>
         ((\<exists>l\<in>set (window_of (new_lines st) idx). contains l (strip note) \<or> contains l marker)
            \<longrightarrow> already_present (window_of (new_lines st) idx) note marker) \<and>
         new_lines st' = new_lines st \<and> offset st' = offset st \<and> inserted st' = inserted st \<and>
         records st' = records st @ [filter_decision env thr it] \<and>
         rec_decision (last (records st')) = Insert"
proof -
  have w: "window_of (new_lines st) idx =
           map (\<lambda>j. new_lines st ! j) [idx - 2 ..< min (length (new_lines st)) (idx + 3)]"
    by (rule window_of_nth)
  have p: "(\<exists>l\<in>set (window_of (new_lines st) idx). contains l (strip note) \<or> contains l marker)
            \<longrightarrow> already_present (window_of (new_lines st) idx) note marker"
    unfolding already_present_def using contains_join_nl by blast
  have "st' = st\<lparr>records := records st @ [filter_decision env thr it]\<rparr>"
    unfolding assms(8)
    using assms(7) unfolding assms(4) assms(5) assms(6)
    by (rule process_item_present[OF assms(2)])
  then have r: "new_lines st' = new_lines st \<and> offset st' = offset st \<and> inserted st' = inserted st \<and>
         records st' = records st @ [filter_decision env thr it]" by simp
  with assms(1) have "rec_decision (last (records st')) = Insert" by simp
  with w p r show ?thesis by blast
qed

theorem window_guard_skips_witness:
  "splitlines (out_content (main_core example_env first_sugg None first_content)) = rerun_lines \<and>
   rec_decision (filter_decision rerun_env THRESHOLD (example_items ! 0)) = Insert \<and>
   best_match rerun_env (original (example_items ! 0)) rerun_lines = (Some 2, 1) \<and>
   human_note_of (extract_title (suggested_text (example_items ! 0))) \<in> set (window_of rerun_lines 3) \<and>
   new_lines (process_item rerun_env first_sugg THRESHOLD rerun_lines 0 (initial_state rerun_lines)
      (example_items ! 0)) = new_lines (initial_state rerun_lines) \<and>
   inserted (process_item rerun_env first_sugg THRESHOLD rerun_lines 0 (initial_state rerun_lines)
      (example_items ! 0)) = inserted (initial_state rerun_lines) \<and>
   rec_decision (last (records (process_item rerun_env first_sugg THRESHOLD rerun_lines 0
      (initial_state rerun_lines) (example_items ! 0)))) = Insert"
proof -
  have r: "splitlines (out_content (main_core example_env first_sugg None first_content)) = rerun_lines"
    by code_simp
  have a: "rec_decision (filter_decision rerun_env THRESHOLD (example_items ! 0)) = Insert"
    by code_simp
  have b: "best_match rerun_env (original (example_items ! 0)) rerun_lines = (Some 2, 1)"
    by code_simp
  have c: "\<not> (1::rat) < 2 / 10" by simp
  have i: "(3::nat) = 2 + 1 + offset (initial_state rerun_lines)" by (simp add: initial_state_def)
  have m: "human_note_of (extract_title (suggested_text (example_items ! 0))) \<in> set (window_of rerun_lines 3)"
    by code_simp
  have d: "already_present (window_of (new_lines (initial_state rerun_lines)) 3)
     (human_note_of (extract_title (suggested_text (example_items ! 0))))
     (machine_comment_of rerun_env first_sugg 0 (original (example_items ! 0))
        (extract_title (suggested_text (example_items ! 0))))"
    by code_simp
  from window_guard_skips[OF a b c refl refl i d refl] r a b m
  show ?thesis by blast
qed

text \<open>
  Claim C5. After the loop, the line at index 0 of the document is the new
  \<^verbatim>\<open>last_review\<close> line. When the first line of the array (which is the first line of
  the downloaded document) starts with \<^verbatim>\<open><!-- bot: last_review\<close>, it is replaced in
  place: the length and the number of such lines stay the same. Otherwise the new line
  is put on top and there is one more. The step takes the lines only: it does not
  depend on the offset and leaves the count of insertions as the loop left it.
\<close>

theorem last_review_header:
  "(let lines = splitlines content;
        nl = new_lines (after_loop env sugg t content);
        ll = last_line_of env sugg;
        final = out_lines (main_core env sugg t content)
    in final = update_last_review nl ll \<and> final \<noteq> [] \<and> final ! 0 = ll \<and> is_review ll \<and>
       (nl = [] \<longleftrightarrow> lines = []) \<and> (lines \<noteq> [] \<longrightarrow> hd nl = hd lines) \<and>
       (nl \<noteq> [] \<and> is_review (hd nl) \<longrightarrow>
          final = ll # tl nl \<and> length final = length nl \<and>
          length (filter is_review final) = length (filter is_review nl)) \<and>
       (\<not> (nl \<noteq> [] \<and> is_review (hd nl)) \<longrightarrow>
          final = ll # nl \<and> length final = Suc (length nl) \<and>
          length (filter is_review final) = Suc (length (filter is_review nl)))) \<and>
   update_last_review (new_lines (st\<lparr>offset := n\<rparr>)) l = update_last_review (new_lines st) l \<and>
   out_inserted (main_core env sugg t content) = inserted (after_loop env sugg t content)"
proof -
  let ?lines = "splitlines content"
  let ?nl = "new_lines (after_loop env sugg t content)"
  let ?ll = "last_line_of env sugg"
  let ?final = "out_lines (main_core env sugg t content)"
  have f: "?final = update_last_review ?nl ?ll" by (rule out_lines_main)
  have r: "is_review ?ll" by (rule is_review_last_line)
  have fr: "(?nl = [] \<longleftrightarrow> ?lines = []) \<and> (?lines \<noteq> [] \<longrightarrow> hd ?nl = hd ?lines)"
    using frame_after_loop[of content env sugg t] by (auto simp: frame_inv_def)
  have c1: "?nl \<noteq> [] \<and> is_review (hd ?nl) \<longrightarrow>
          ?final = ?ll # tl ?nl \<and> length ?final = length ?nl \<and>
          length (filter is_review ?final) = length (filter is_review ?nl)"
  proof
    assume T: "?nl \<noteq> [] \<and> is_review (hd ?nl)"
    then have e: "?final = ?ll # tl ?nl" unfolding f by (simp add: update_last_review_replace)
    from T obtain x xs where nl: "?nl = x # xs" and x: "is_review x" by (cases ?nl) auto
    from e nl x r show "?final = ?ll # tl ?nl \<and> length ?final = length ?nl \<and>
          length (filter is_review ?final) = length (filter is_review ?nl)" by simp
  qed
  have c2: "\<not> (?nl \<noteq> [] \<and> is_review (hd ?nl)) \<longrightarrow>
          ?final = ?ll # ?nl \<and> length ?final = Suc (length ?nl) \<and>
          length (filter is_review ?final) = Suc (length (filter is_review ?nl))"
  proof
    assume F: "\<not> (?nl \<noteq> [] \<and> is_review (hd ?nl))"
    then have e: "?final = ?ll # ?nl" unfolding f by (rule update_last_review_insert)
    with r show "?final = ?ll # ?nl \<and> length ?final = Suc (length ?nl) \<and>
          length (filter is_review ?final) = Suc (length (filter is_review ?nl))" by simp
  qed
  from c1 c2 have ne: "?final \<noteq> [] \<and> ?final ! 0 = ?ll" by (cases "?nl \<noteq> [] \<and> is_review (hd ?nl)") auto
  have o: "update_last_review (new_lines (st\<lparr>offset := n\<rparr>)) l = update_last_review (new_lines st) l"
    by simp
  have i: "out_inserted (main_core env sugg t content) = inserted (after_loop env sugg t content)"
    by (simp add: main_core_def Let_def)
  from f r fr c1 c2 ne o i show ?thesis unfolding Let_def by blast
qed

theorem last_review_header_witness:
  "new_lines (after_loop example_env empty_sugg None reviewed_content) = [''<!-- bot: last_review --> old'', ''x''] \<and>
   is_review ''<!-- bot: last_review --> old'' \<and>
   out_lines (main_core example_env empty_sugg None reviewed_content) = [last_line_of example_env empty_sugg, ''x''] \<and>
   new_lines (after_loop example_env empty_sugg None ''x'') = [''x''] \<and> \<not> is_review ''x'' \<and>
   out_lines (main_core example_env empty_sugg None ''x'') = [last_line_of example_env empty_sugg, ''x'']"
proof -
  let ?n1 = "new_lines (after_loop example_env empty_sugg None reviewed_content)"
  let ?n2 = "new_lines (after_loop example_env empty_sugg None ''x'')"
  have a: "?n1 = [''<!-- bot: last_review --> old'', ''x'']" by code_simp
  have b: "is_review ''<!-- bot: last_review --> old''" by code_simp
  have c: "?n2 = [''x'']" by code_simp
  have d: "\<not> is_review ''x''" by code_simp
  have c1: "?n1 \<noteq> [] \<and> is_review (hd ?n1)" unfolding a using b by simp
  have c2: "\<not> (?n2 \<noteq> [] \<and> is_review (hd ?n2))" unfolding c using d by simp
  from last_review_header[of reviewed_content example_env empty_sugg None, unfolded Let_def] c1
  have "out_lines (main_core example_env empty_sugg None reviewed_content) = last_line_of example_env empty_sugg # tl ?n1"
    by blast
  then have e: "out_lines (main_core example_env empty_sugg None reviewed_content) = [last_line_of example_env empty_sugg, ''x'']"
    unfolding a by simp
  from last_review_header[of "''x''" example_env empty_sugg None, unfolded Let_def] c2
  have "out_lines (main_core example_env empty_sugg None ''x'') = last_line_of example_env empty_sugg # ?n2"
    by blast
  then have f: "out_lines (main_core example_env empty_sugg None ''x'') = [last_line_of example_env empty_sugg, ''x'']"
    unfolding c by simp
  from a b c d e f show ?thesis by blast
qed

text \<open>
  Claim C8. Every suggestion gives exactly one record, whatever its decision and whether
  or not a line matched: the records are the filter's records of the suggestions, in the
  order of the input, so there are as many records as suggestions and record \<open>i\<close>
  carries the original and the title of suggestion \<open>i\<close>.
\<close>

theorem one_record_per_suggestion:
  "out_records (main_core env sugg t content) =
     map (filter_decision env (threshold_arg t)) (items sugg) \<and>
   length (out_records (main_core env sugg t content)) = length (items sugg) \<and>
   (\<forall>i<length (items sugg).
      out_records (main_core env sugg t content) ! i
        = filter_decision env (threshold_arg t) (items sugg ! i) \<and>
      rec_original (out_records (main_core env sugg t content) ! i) = original (items sugg ! i) \<and>
      rec_title (out_records (main_core env sugg t content) ! i)
        = extract_title (suggested_text (items sugg ! i)))"
  by (simp add: out_records_main filter_decision_def Let_def)

theorem one_record_per_suggestion_witness:
  "length (items mixed_sugg) = 3 \<and>
   map rec_decision (map (filter_decision example_env (threshold_arg None)) (items mixed_sugg))
     = [Insert, SkipSimilar, SkipNotActionable] \<and>
   map rec_decision (out_records (main_core example_env mixed_sugg None first_content))
     = [Insert, SkipSimilar, SkipNotActionable] \<and>
   length (out_records (main_core example_env mixed_sugg None first_content)) = 3 \<and>
   rec_original (out_records (main_core example_env mixed_sugg None first_content) ! 1)
     = original (items mixed_sugg ! 1)"
proof -
  have l: "length (items mixed_sugg) = 3" by (simp add: mixed_sugg_def)
  have d: "map rec_decision (map (filter_decision example_env (threshold_arg None)) (items mixed_sugg))
     = [Insert, SkipSimilar, SkipNotActionable]" by code_simp
  have i: "1 < length (items mixed_sugg)" unfolding l by simp
  note T = one_record_per_suggestion[of example_env mixed_sugg None first_content]
  from T have r: "out_records (main_core example_env mixed_sugg None first_content) =
     map (filter_decision example_env (threshold_arg None)) (items mixed_sugg)" by blast
  from T l have n: "length (out_records (main_core example_env mixed_sugg None first_content)) = 3"
    by metis
  from T i have o: "rec_original (out_records (main_core example_env mixed_sugg None first_content) ! 1)
     = original (items mixed_sugg ! 1)" by blast
  from l d d[folded r] n o show ?thesis by blast
qed

text \<open>
  Claim C9. The loop only inserts: the lines of the downloaded document are a
  subsequence of the array after the loop, unchanged and in their order. In the final
  array they follow the new header line, except that a first line that starts with
  \<^verbatim>\<open><!-- bot: last_review\<close> has been replaced by it.
\<close>

theorem original_lines_preserved:
  "(let lines = splitlines content;
        final = out_lines (main_core env sugg t content)
    in subseq lines (new_lines (after_loop env sugg t content)) \<and>
       hd final = last_line_of env sugg \<and>
       (lines \<noteq> [] \<and> is_review (hd lines) \<longrightarrow> subseq (tl lines) (tl final)) \<and>
       (\<not> (lines \<noteq> [] \<and> is_review (hd lines)) \<longrightarrow> subseq lines (tl final)))"
proof -
  let ?lines = "splitlines content"
  let ?nl = "new_lines (after_loop env sugg t content)"
  let ?ll = "last_line_of env sugg"
  let ?final = "out_lines (main_core env sugg t content)"
  have fr: "frame_inv ?lines ?nl" by (rule frame_after_loop)
  then have s: "subseq ?lines ?nl" by (rule frame_inv_subseq)
  have f: "?final = update_last_review ?nl ?ll" by (rule out_lines_main)
  have "hd ?final = ?ll \<and>
       (?lines \<noteq> [] \<and> is_review (hd ?lines) \<longrightarrow> subseq (tl ?lines) (tl ?final)) \<and>
       (\<not> (?lines \<noteq> [] \<and> is_review (hd ?lines)) \<longrightarrow> subseq ?lines (tl ?final))"
  proof (cases "?lines \<noteq> [] \<and> is_review (hd ?lines)")
    case True
    with fr have n: "?nl \<noteq> [] \<and> is_review (hd ?nl)" and t: "subseq (tl ?lines) (tl ?nl)"
      by (auto simp: frame_inv_def)
    from n have "?final = ?ll # tl ?nl" unfolding f by (simp add: update_last_review_replace)
    with True t show ?thesis by auto
  next
    case False
    with fr have "\<not> (?nl \<noteq> [] \<and> is_review (hd ?nl))" by (auto simp: frame_inv_def)
    then have "?final = ?ll # ?nl" unfolding f by (rule update_last_review_insert)
    with False s show ?thesis by auto
  qed
  with s show ?thesis unfolding Let_def by blast
qed

theorem original_lines_preserved_witness:
  "splitlines first_content = [''t'', ''11'', ''z''] \<and> \<not> is_review ''t'' \<and>
   subseq [''t'', ''11'', ''z''] (tl (out_lines (main_core example_env first_sugg None first_content))) \<and>
   splitlines reviewed_content = [''<!-- bot: last_review --> old'', ''x''] \<and>
   subseq [''x''] (tl (out_lines (main_core example_env first_sugg None reviewed_content)))"
proof -
  have a: "splitlines first_content = [''t'', ''11'', ''z'']" by code_simp
  have b: "\<not> is_review ''t''" by code_simp
  have c: "splitlines reviewed_content = [''<!-- bot: last_review --> old'', ''x'']" by code_simp
  have d: "is_review ''<!-- bot: last_review --> old''" by code_simp
  have c1: "\<not> (splitlines first_content \<noteq> [] \<and> is_review (hd (splitlines first_content)))"
    unfolding a using b by simp
  have c2: "splitlines reviewed_content \<noteq> [] \<and> is_review (hd (splitlines reviewed_content))"
    unfolding c using d by simp
  from original_lines_preserved[of first_content example_env first_sugg None, unfolded Let_def] c1
  have "subseq (splitlines first_content) (tl (out_lines (main_core example_env first_sugg None first_content)))"
    by blast
  then have e: "subseq [''t'', ''11'', ''z''] (tl (out_lines (main_core example_env first_sugg None first_content)))"
    unfolding a .
  from original_lines_preserved[of reviewed_content example_env first_sugg None, unfolded Let_def] c2
  have "subseq (tl (splitlines reviewed_content)) (tl (out_lines (main_core example_env first_sugg None reviewed_content)))"
    by blast
  then have f: "subseq [''x''] (tl (out_lines (main_core example_env first_sugg None reviewed_content)))"
    unfolding c by simp
  from a b c e f show ?thesis by blast
qed

text \<open>
  Claim C10, as stated, fails: the document \<^verbatim>\<open>"a\r\r"\<close> does not end with a newline,
  \<^verbatim>\<open>splitlines\<close> reads it as the lines \<^verbatim>\<open>"a"\<close> and \<^verbatim>\<open>""\<close>, and the joined output ends
  with a newline.
\<close>

theorem trailing_newline_counterexample:
  "\<not> endswith cr_content [CHR 0x0A] \<and>
   endswith (out_content (main_core example_env empty_sugg None cr_content)) [CHR 0x0A]"
  by code_simp

text \<open>
  Claim C10, amended. The final content is the final array joined with newlines, with
  one newline appended if and only if the downloaded content ended with one. So a
  trailing newline of the download is always kept. When the download has none, the
  output ends with a newline exactly when the last line of the final array ends with
  one or is an empty line after at least one other line.
\<close>

theorem trailing_newline_appended:
  "(let final = out_lines (main_core env sugg t content);
        out = out_content (main_core env sugg t content)
    in out = join_nl final @ (if endswith content [CHR 0x0A] then [CHR 0x0A] else []) \<and>
       final \<noteq> [] \<and>
       (endswith content [CHR 0x0A] \<longrightarrow> endswith out [CHR 0x0A]) \<and>
       (\<not> endswith content [CHR 0x0A] \<longrightarrow>
          (endswith out [CHR 0x0A] \<longleftrightarrow>
             endswith (last final) [CHR 0x0A] \<or> (last final = [] \<and> 2 \<le> length final))))"
proof -
  let ?final = "out_lines (main_core env sugg t content)"
  let ?out = "out_content (main_core env sugg t content)"
  have o: "?out = join_nl ?final @ (if endswith content [CHR 0x0A] then [CHR 0x0A] else [])"
    by (rule out_content_main)
  have ne: "?final \<noteq> []"
    unfolding out_lines_main by (auto simp: update_last_review_def insert_at_def)
  have p: "endswith content [CHR 0x0A] \<longrightarrow> endswith ?out [CHR 0x0A]"
    unfolding o by (simp add: endswith_def)
  have a: "\<not> endswith content [CHR 0x0A] \<longrightarrow>
          (endswith ?out [CHR 0x0A] \<longleftrightarrow>
             endswith (last ?final) [CHR 0x0A] \<or> (last ?final = [] \<and> 2 \<le> length ?final))"
    using endswith_join_nl[OF ne] o by simp
  from o ne p a show ?thesis unfolding Let_def by blast
qed

theorem trailing_newline_appended_witness:
  "endswith reviewed_content [CHR 0x0A] \<and>
   endswith (out_content (main_core example_env empty_sugg None reviewed_content)) [CHR 0x0A] \<and>
   \<not> endswith ''x'' [CHR 0x0A] \<and>
   last (out_lines (main_core example_env empty_sugg None ''x'')) = ''x'' \<and>
   \<not> endswith (out_content (main_core example_env empty_sugg None ''x'')) [CHR 0x0A]"
proof -
  have a: "endswith reviewed_content [CHR 0x0A]" by code_simp
  have b: "\<not> endswith ''x'' [CHR 0x0A]" by code_simp
  have c: "last (out_lines (main_core example_env empty_sugg None ''x'')) = ''x''" by code_simp
  have c': "\<not> (endswith (last (out_lines (main_core example_env empty_sugg None ''x''))) [CHR 0x0A] \<or>
     last (out_lines (main_core example_env empty_sugg None ''x'')) = [] \<and>
       2 \<le> length (out_lines (main_core example_env empty_sugg None ''x'')))"
    unfolding c using b by simp
  from trailing_newline_appended[of example_env empty_sugg None reviewed_content, unfolded Let_def] a
  have d: "endswith (out_content (main_core example_env empty_sugg None reviewed_content)) [CHR 0x0A]"
    by blast
  from trailing_newline_appended[of example_env empty_sugg None "''x''", unfolded Let_def] b c'
  have e: "\<not> endswith (out_content (main_core example_env empty_sugg None ''x'')) [CHR 0x0A]"
    by blast
  from a b c d e show ?thesis by blast
qed

end
